theory Spec2Isabelle
  imports Main "HOL-Library.Sublist"
begin

section \<open>Strings\<close>

text \<open>
  A Python \<open>str\<close> is modelled as a \<open>string\<close>; the character \<open>c\<close> stands for the code
  point \<open>of_char c\<close>, so the model covers the texts whose code points are below 256.
  The string methods the script calls are written out below for that range.
\<close>

abbreviation LF :: char where "LF \<equiv> CHR 0x0A"
abbreviation CR :: char where "CR \<equiv> CHR 0x0D"

text \<open>The line boundaries of \<open>str.splitlines\<close> (besides the pair CR LF).\<close>

definition is_linebreak :: "char \<Rightarrow> bool" where
  "is_linebreak c \<longleftrightarrow>
     c \<in> {CHR 0x0A, CHR 0x0B, CHR 0x0C, CHR 0x0D, CHR 0x1C, CHR 0x1D, CHR 0x1E, CHR 0x85}"

text \<open>The characters \<open>str.isspace\<close> accepts, which \<open>str.strip()\<close> removes.\<close>

definition isspace :: "char \<Rightarrow> bool" where
  "isspace c \<longleftrightarrow>
     c \<in> {CHR 0x09, CHR 0x0A, CHR 0x0B, CHR 0x0C, CHR 0x0D, CHR 0x1C, CHR 0x1D, CHR 0x1E,
          CHR 0x1F, CHR 0x20, CHR 0x85, CHR 0xA0}"

text \<open>
  \<open>str.splitlines()\<close>: scan to the next line boundary, emit the line without it, step
  over the boundary (CR LF counts as one), and go on while characters remain. A text
  that ends with a boundary has no empty last line.
\<close>

function splitlines :: "string \<Rightarrow> string list" where
  "splitlines [] = []"
| "splitlines (c # cs) =
     takeWhile (\<lambda>x. \<not> is_linebreak x) (c # cs) #
       (case dropWhile (\<lambda>x. \<not> is_linebreak x) (c # cs) of
          [] \<Rightarrow> []
        | b # r \<Rightarrow>
            (if b = CR then (case r of [] \<Rightarrow> splitlines r
                                    | d # r' \<Rightarrow> if d = LF then splitlines r' else splitlines r)
             else splitlines r))"
  by pat_completeness auto
termination
proof (relation "measure length", goal_cases)
  case 1
  show ?case by simp
next
  case (2 c cs b r)
  have "length (dropWhile (\<lambda>x. \<not> is_linebreak x) (c # cs)) \<le> length (c # cs)"
    by (rule length_dropWhile_le)
  with 2 show ?case by simp
next
  case (3 c cs b r d r')
  have "length (dropWhile (\<lambda>x. \<not> is_linebreak x) (c # cs)) \<le> length (c # cs)"
    by (rule length_dropWhile_le)
  with 3 show ?case by simp
next
  case (4 c cs b r d r')
  have "length (dropWhile (\<lambda>x. \<not> is_linebreak x) (c # cs)) \<le> length (c # cs)"
    by (rule length_dropWhile_le)
  with 4 show ?case by simp
next
  case (5 c cs b r)
  have "length (dropWhile (\<lambda>x. \<not> is_linebreak x) (c # cs)) \<le> length (c # cs)"
    by (rule length_dropWhile_le)
  with 5 show ?case by simp
qed

text \<open>\<open>str.strip()\<close> with no argument: drop the whitespace at both ends.\<close>

definition strip :: "string \<Rightarrow> string" where
  "strip s = rev (dropWhile isspace (rev (dropWhile isspace s)))"

text \<open>\<open>s.startswith(p)\<close>.\<close>

definition startswith :: "string \<Rightarrow> string \<Rightarrow> bool" where
  "startswith s p \<longleftrightarrow> take (length p) s = p"

text \<open>\<open>"\n".join(xs)\<close>.\<close>

fun join :: "string list \<Rightarrow> string" where
  "join [] = []"
| "join [x] = x"
| "join (x # y # ys) = x @ LF # join (y # ys)"

section \<open>Notebook cells\<close>

text \<open>
  The cells come from the nbformat library: \<open>new_markdown_cell(source)\<close> and
  \<open>new_code_cell(source, metadata=...)\<close> build a node holding the cell type, the source
  and the metadata dictionary (empty when none is given). The metadata the script passes
  is a dictionary of dictionaries of strings, kept here as association lists. The fields
  nbformat fills in by itself (no outputs, no execution count) are the same for every
  cell and are left out.
\<close>

datatype cell_kind = Markdown | Code

type_synonym metadata = "(string \<times> (string \<times> string) list) list"

record cell =
  cell_type :: cell_kind
  source :: string
  metadata :: metadata

definition new_markdown_cell :: "string \<Rightarrow> cell" where
  "new_markdown_cell src = \<lparr>cell_type = Markdown, source = src, metadata = []\<rparr>"

definition new_code_cell :: "string \<Rightarrow> metadata \<Rightarrow> cell" where
  "new_code_cell src md = \<lparr>cell_type = Code, source = src, metadata = md\<rparr>"

section \<open>The splitter\<close>

text \<open>The local variables of \<open>split_content_to_cells\<close> that the loop updates.\<close>

record splitter_state =
  cells :: "cell list"
  in_code_block :: bool
  code_block :: "string list"
  markdown_block :: "string list"
  current_code_type :: string

definition init_state :: splitter_state where
  "init_state = \<lparr>cells = [], in_code_block = False, code_block = [], markdown_block = [],
                 current_code_type = ''python''\<rparr>"

text \<open>One iteration of \<open>for line in lines\<close>.\<close>

definition step :: "splitter_state \<Rightarrow> string \<Rightarrow> splitter_state" where
  "step s line =
     (if startswith (strip line) ''```'' then
        (let s1 =
           (if in_code_block s then
              (let s2 =
                 (if current_code_type s = ''python'' then
                    s\<lparr>cells := cells s @ [new_code_cell (join (code_block s)) []]\<rparr>
                  else
                    s\<lparr>cells := cells s @
                         [new_code_cell (join (code_block s))
                            [(''kernelspec'', [(''name'', ''bash'')])]]\<rparr>)
               in s2\<lparr>code_block := []\<rparr>)
            else
              (let s2 =
                 (if markdown_block s \<noteq> [] then
                    s\<lparr>cells := cells s @ [new_markdown_cell (join (markdown_block s))],
                      markdown_block := []\<rparr>
                  else s)
               in s2\<lparr>current_code_type := drop 3 (strip line)\<rparr>))
         in s1\<lparr>in_code_block := \<not> in_code_block s1\<rparr>)
      else if in_code_block s then s\<lparr>code_block := code_block s @ [line]\<rparr>
      else s\<lparr>markdown_block := markdown_block s @ [line]\<rparr>)"

text \<open>The whole loop, from any state.\<close>

definition run :: "splitter_state \<Rightarrow> string list \<Rightarrow> splitter_state" where
  "run s lines = foldl step s lines"

text \<open>After the loop: the remaining markdown lines, if any, become a last cell.\<close>

definition finish :: "splitter_state \<Rightarrow> cell list" where
  "finish s =
     (if markdown_block s \<noteq> [] then cells s @ [new_markdown_cell (join (markdown_block s))]
      else cells s)"

text \<open>The function on the lines of the text, and the function itself.\<close>

definition split_lines :: "string list \<Rightarrow> cell list" where
  "split_lines lines = finish (run init_state lines)"

definition split_content_to_cells :: "string \<Rightarrow> cell list" where
  "split_content_to_cells md_content = split_lines (splitlines md_content)"

section \<open>The conversion of one file\<close>

text \<open>
  \<open>os.path.splitext(p)[0]\<close> on a POSIX path: the part before the last dot, when that dot
  comes after the last slash and some character between the two is not a dot; the whole
  path otherwise. \<open>rfind\<close> is \<open>str.rfind\<close> for one character, \<open>-1\<close> when it is absent.
\<close>

definition rfind :: "string \<Rightarrow> char \<Rightarrow> int" where
  "rfind p c =
     (case filter (\<lambda>i. p ! i = c) (rev [0..<length p]) of [] \<Rightarrow> - 1 | i # _ \<Rightarrow> int i)"

definition splitext_root :: "string \<Rightarrow> string" where
  "splitext_root p =
     (let sepIndex = rfind p (CHR ''/''); dotIndex = rfind p (CHR ''.'') in
      if dotIndex > sepIndex \<and>
         list_ex (\<lambda>i. p ! i \<noteq> CHR ''.'') [nat (sepIndex + 1)..<nat dotIndex]
      then take (nat dotIndex) p else p)"

text \<open>\<open>s.replace('_', ' ')\<close>.\<close>

definition replace_underscores :: "string \<Rightarrow> string" where
  "replace_underscores s = map (\<lambda>c. if c = CHR ''_'' then CHR '' '' else c) s"

text \<open>
  \<open>str.title()\<close> on ASCII text, which is what the names in \<open>md_files\<close> are: a character
  that follows a letter is lowered, any other character is raised, and a character is
  cased when it is a letter. Only letters change under \<open>upper\<close> and \<open>lower\<close>.
\<close>

definition ascii_lowercase :: string where
  "ascii_lowercase = ''abcdefghijklmnopqrstuvwxyz''"

definition ascii_uppercase :: string where
  "ascii_uppercase = ''ABCDEFGHIJKLMNOPQRSTUVWXYZ''"

definition upper :: "char \<Rightarrow> char" where
  "upper c = (case map_of (zip ascii_lowercase ascii_uppercase) c of Some u \<Rightarrow> u | None \<Rightarrow> c)"

definition lower :: "char \<Rightarrow> char" where
  "lower c = (case map_of (zip ascii_uppercase ascii_lowercase) c of Some l \<Rightarrow> l | None \<Rightarrow> c)"

fun title_from :: "bool \<Rightarrow> string \<Rightarrow> string" where
  "title_from previous_is_cased [] = []"
| "title_from previous_is_cased (c # cs) =
     (if previous_is_cased then lower c else upper c) #
       title_from (c \<in> set ascii_lowercase \<or> c \<in> set ascii_uppercase) cs"

definition title :: "string \<Rightarrow> string" where
  "title s = title_from False s"

text \<open>
  The body of \<open>for md_file in md_files\<close>, from the text read from the file to the cells
  of the notebook that is written. \<open>nb.cells[0]\<close> raises IndexError on an empty list.
\<close>

datatype error = IndexError

record notebook =
  nb_cells :: "cell list"

definition convert_md_file :: "string \<Rightarrow> string \<Rightarrow> error + notebook" where
  "convert_md_file md_file md_content =
     (let nb = \<lparr>nb_cells = split_content_to_cells md_content\<rparr> in
      case nb_cells nb of
        [] \<Rightarrow> Inl IndexError
      | first # _ \<Rightarrow>
          (if \<not> startswith (source first) ''# '' then
             (let title_cell =
                new_markdown_cell (''# '' @ title (replace_underscores (splitext_root md_file)))
              in Inr (nb\<lparr>nb_cells := title_cell # nb_cells nb\<rparr>))
           else Inr nb))"

section \<open>Notions used in the statements\<close>

text \<open>
  A fence line: the test \<open>line.strip().startswith("```")\<close> of the loop.
\<close>

abbreviation fence :: "string \<Rightarrow> bool" where
  "fence line \<equiv> startswith (strip line) ''```''"

text \<open>
  The loop keeps at most one accumulator in use: inside a code region the markdown
  lines have been flushed, outside one the code lines have.
\<close>

definition accumulators_ok :: "splitter_state \<Rightarrow> bool" where
  "accumulators_ok s \<longleftrightarrow>
     (if in_code_block s then markdown_block s = [] else code_block s = [])"

text \<open>
  No two markdown cells are next to each other.
\<close>

fun no_adjacent_markdown :: "cell list \<Rightarrow> bool" where
  "no_adjacent_markdown [] = True"
| "no_adjacent_markdown [c] = True"
| "no_adjacent_markdown (c # d # cs) =
     ((cell_type c = Code \<or> cell_type d = Code) \<and> no_adjacent_markdown (d # cs))"

definition ends_with_code :: "cell list \<Rightarrow> bool" where
  "ends_with_code cs \<longleftrightarrow> cs = [] \<or> cell_type (last cs) = Code"

text \<open>
  What the loop maintains about the cells emitted so far: no two markdown cells are
  adjacent, and a markdown cell can only be added after a code cell or at the start.
\<close>

definition alternation_ok :: "splitter_state \<Rightarrow> bool" where
  "alternation_ok s \<longleftrightarrow>
     no_adjacent_markdown (cells s) \<and>
     (if in_code_block s then markdown_block s = [] else ends_with_code (cells s))"

text \<open>
  Reading the lines of a cell back: \<open>source.split("\n")\<close>, the inverse of the join that
  built the source, and the lines of a cell.
\<close>

fun split_newline :: "string \<Rightarrow> string list" where
  "split_newline [] = [ [] ]"
| "split_newline (c # cs) =
     (if c = LF then [] # split_newline cs
      else (case split_newline cs of [] \<Rightarrow> [ [c] ] | l # ls \<Rightarrow> (c # l) # ls))"

definition cell_lines :: "cell \<Rightarrow> string list" where
  "cell_lines c = split_newline (source c)"

text \<open>
  No code region of the input is empty: no closing fence comes right after its opening
  fence. The flags say whether the scan is inside a code region and whether that
  region has no line yet.
\<close>

fun code_regions_nonempty :: "bool \<Rightarrow> bool \<Rightarrow> string list \<Rightarrow> bool" where
  "code_regions_nonempty in_code no_lines [] = True"
| "code_regions_nonempty in_code no_lines (l # ls) =
     (if fence l then
        (if in_code then \<not> no_lines \<and> code_regions_nonempty False False ls
         else code_regions_nonempty True True ls)
      else code_regions_nonempty in_code False ls)"

text \<open>
  The reconstruction of the specification: the lines of the cells in order, with a
  generic fence line wherever a markdown cell meets a code cell.
\<close>

fun rebuild :: "cell list \<Rightarrow> string list" where
  "rebuild [] = []"
| "rebuild [c] = cell_lines c"
| "rebuild (c # d # cs) =
     cell_lines c @ (if cell_type c \<noteq> cell_type d then [''```''] else []) @ rebuild (d # cs)"

text \<open>
  The input with every fence line replaced by the generic fence (the language tags are
  not part of the reconstruction).
\<close>

definition generic_fences :: "string list \<Rightarrow> string list" where
  "generic_fences ls = map (\<lambda>l. if fence l then ''```'' else l) ls"

text \<open>
  No two fence lines follow each other.
\<close>

fun no_adjacent_fences :: "string list \<Rightarrow> bool" where
  "no_adjacent_fences [] = True"
| "no_adjacent_fences [l] = True"
| "no_adjacent_fences (l # m # ls) = (\<not> (fence l \<and> fence m) \<and> no_adjacent_fences (m # ls))"

text \<open>
  The lines a state holds: those of the cells emitted and those still accumulated.
\<close>

definition stored_lines :: "splitter_state \<Rightarrow> string list" where
  "stored_lines s = concat (map cell_lines (cells s)) @ code_block s @ markdown_block s"

definition lines_ok :: "splitter_state \<Rightarrow> bool" where
  "lines_ok s \<longleftrightarrow>
     accumulators_ok s \<and> (\<forall>l\<in>set (code_block s @ markdown_block s). LF \<notin> set l)"

text \<open>
  The state after the lines \<open>xs\<close>, when \<open>xs\<close> does not start with a fence and has no
  two adjacent fences: the cells alternate, and rebuilding them gives back \<open>xs\<close> up to
  the accumulator in use.
\<close>

definition rebuild_inv :: "string list \<Rightarrow> splitter_state \<Rightarrow> bool" where
  "rebuild_inv xs s \<longleftrightarrow>
     (\<forall>l\<in>set (code_block s @ markdown_block s). LF \<notin> set l) \<and>
     (if in_code_block s then
        cells s \<noteq> [] \<and> cell_type (last (cells s)) = Markdown \<and> markdown_block s = [] \<and>
        rebuild (cells s) @ ''```'' # code_block s = generic_fences xs \<and>
        (code_block s = [] \<longleftrightarrow> fence (last xs))
      else
        code_block s = [] \<and> ends_with_code (cells s) \<and>
        rebuild (cells s) @ (if cells s = [] then [] else [''```'']) @ markdown_block s =
          generic_fences xs \<and>
        (markdown_block s = [] \<longleftrightarrow> xs = [] \<or> fence (last xs)))"

text \<open>
  Two states that agree on everything the cells are built from: all the fields but the
  tag, and the tag too while a code region is open (outside one, the tag is assigned
  again before it is read).
\<close>

definition same_but_tag :: "splitter_state \<Rightarrow> splitter_state \<Rightarrow> bool" where
  "same_but_tag s t \<longleftrightarrow>
     cells s = cells t \<and> in_code_block s = in_code_block t \<and> code_block s = code_block t \<and>
     markdown_block s = markdown_block t \<and>
     (if in_code_block s then current_code_type s = current_code_type t else True)"

section \<open>Evaluation and the steps of the loop\<close>

lemmas eval_defs = split_content_to_cells_def split_lines_def run_def finish_def init_state_def
  step_def is_linebreak_def strip_def isspace_def startswith_def Let_def

lemma step_fence_in_code:
  "fence l \<Longrightarrow> in_code_block s \<Longrightarrow>
   step s l = s\<lparr>cells := cells s @ [new_code_cell (join (code_block s))
                     (if current_code_type s = ''python'' then []
                      else [(''kernelspec'', [(''name'', ''bash'')])])],
               in_code_block := False, code_block := []\<rparr>"
  by (simp add: step_def Let_def)

lemma step_fence_markdown:
  "fence l \<Longrightarrow> \<not> in_code_block s \<Longrightarrow>
   step s l = s\<lparr>cells := finish s, in_code_block := True, markdown_block := [],
               current_code_type := drop 3 (strip l)\<rparr>"
  by (simp add: step_def finish_def Let_def)

lemma step_text_in_code:
  "\<not> fence l \<Longrightarrow> in_code_block s \<Longrightarrow> step s l = s\<lparr>code_block := code_block s @ [l]\<rparr>"
  by (simp add: step_def)

lemma step_text_markdown:
  "\<not> fence l \<Longrightarrow> \<not> in_code_block s \<Longrightarrow>
   step s l = s\<lparr>markdown_block := markdown_block s @ [l]\<rparr>"
  by (simp add: step_def)

lemma run_Nil: "run s [] = s"
  by (simp add: run_def)

lemma run_Cons: "run s (l # ls) = run (step s l) ls"
  by (simp add: run_def)

lemma run_append: "run s (xs @ ys) = run (run s xs) ys"
  by (simp add: run_def)

lemma run_text_in_code:
  "in_code_block s \<Longrightarrow> \<forall>l\<in>set ls. \<not> fence l \<Longrightarrow>
   run s ls = s\<lparr>code_block := code_block s @ ls\<rparr>"
proof (induction ls arbitrary: s)
  case Nil
  show ?case by (simp add: run_Nil)
next
  case (Cons l ls)
  have "step s l = s\<lparr>code_block := code_block s @ [l]\<rparr>"
    using Cons.prems by (simp add: step_text_in_code)
  moreover have "in_code_block (s\<lparr>code_block := code_block s @ [l]\<rparr>)"
    using Cons.prems by simp
  ultimately show ?case
    using Cons.IH [of "s\<lparr>code_block := code_block s @ [l]\<rparr>"] Cons.prems
    by (simp add: run_Cons)
qed

lemma run_text_markdown:
  "\<not> in_code_block s \<Longrightarrow> \<forall>l\<in>set ls. \<not> fence l \<Longrightarrow>
   run s ls = s\<lparr>markdown_block := markdown_block s @ ls\<rparr>"
proof (induction ls arbitrary: s)
  case Nil
  show ?case by (simp add: run_Nil)
next
  case (Cons l ls)
  have "step s l = s\<lparr>markdown_block := markdown_block s @ [l]\<rparr>"
    using Cons.prems by (simp add: step_text_markdown)
  moreover have "\<not> in_code_block (s\<lparr>markdown_block := markdown_block s @ [l]\<rparr>)"
    using Cons.prems by simp
  ultimately show ?case
    using Cons.IH [of "s\<lparr>markdown_block := markdown_block s @ [l]\<rparr>"] Cons.prems
    by (simp add: run_Cons)
qed

lemma accumulators_ok_init: "accumulators_ok init_state"
  by (simp add: accumulators_ok_def init_state_def)

lemma accumulators_ok_step: "accumulators_ok s \<Longrightarrow> accumulators_ok (step s l)"
  by (simp add: accumulators_ok_def step_def Let_def)

lemma accumulators_ok_run: "accumulators_ok s \<Longrightarrow> accumulators_ok (run s ls)"
  by (induction ls arbitrary: s) (simp_all add: run_Nil run_Cons accumulators_ok_step)

lemma code_block_outside:
  "\<not> in_code_block (run init_state pre) \<Longrightarrow> code_block (run init_state pre) = []"
  using accumulators_ok_run [OF accumulators_ok_init, of pre]
  by (simp add: accumulators_ok_def)

lemma markdown_block_inside:
  "in_code_block (run init_state pre) \<Longrightarrow> markdown_block (run init_state pre) = []"
  using accumulators_ok_run [OF accumulators_ok_init, of pre]
  by (simp add: accumulators_ok_def)

lemma run_open:
  assumes "\<not> in_code_block s" "fence opener" "\<forall>l\<in>set body. \<not> fence l"
  shows "run s (opener # body) =
         s\<lparr>cells := finish s, in_code_block := True, code_block := code_block s @ body,
           markdown_block := [], current_code_type := drop 3 (strip opener)\<rparr>"
proof -
  let ?t = "s\<lparr>cells := finish s, in_code_block := True, markdown_block := [],
               current_code_type := drop 3 (strip opener)\<rparr>"
  have "step s opener = ?t"
    using assms by (simp add: step_fence_markdown)
  moreover have "run ?t body = ?t\<lparr>code_block := code_block ?t @ body\<rparr>"
    using assms by (intro run_text_in_code) simp_all
  ultimately show ?thesis by (simp add: run_Cons)
qed

lemma run_region:
  assumes "\<not> in_code_block s" "code_block s = []" "fence opener"
    "\<forall>l\<in>set body. \<not> fence l" "fence closer"
  shows "run s (opener # body @ [closer]) =
         s\<lparr>cells := finish s @ [new_code_cell (join body)
                     (if drop 3 (strip opener) = ''python'' then []
                      else [(''kernelspec'', [(''name'', ''bash'')])])],
           in_code_block := False, code_block := [],
           markdown_block := [], current_code_type := drop 3 (strip opener)\<rparr>"
proof -
  have "run s (opener # body @ [closer]) = step (run s (opener # body)) closer"
    using run_append [of s "opener # body" "[closer]"] by (simp add: run_Cons run_Nil)
  then show ?thesis
    using assms by (simp add: run_open step_fence_in_code)
qed

lemma same_but_tag_step: "same_but_tag s t \<Longrightarrow> same_but_tag (step s l) (step t l)"
  by (simp add: same_but_tag_def step_def Let_def)

lemma same_but_tag_run: "same_but_tag s t \<Longrightarrow> same_but_tag (run s ls) (run t ls)"
  by (induction ls arbitrary: s t) (simp_all add: run_Nil run_Cons same_but_tag_step)

lemma same_but_tag_finish: "same_but_tag s t \<Longrightarrow> finish s = finish t"
  by (simp add: same_but_tag_def finish_def)

section \<open>Empty input\<close>

text \<open>
  C4: the splitter applied to the empty string returns the empty list of cells.
\<close>

theorem split_empty_string: "split_content_to_cells [] = []"
  by (simp add: split_content_to_cells_def split_lines_def run_def finish_def init_state_def)

section \<open>Code cells and the language tag\<close>

text \<open>
  C1, as stated, fails: a region opened with the tag \<open>js\<close> gives a cell whose kernel
  metadata names \<open>bash\<close>; the tag itself is not in the cell.
\<close>

theorem language_tag_metadata_counterexample:
  "drop 3 (strip ''```js'') = ''js'' \<and>
   map metadata (split_content_to_cells (''```js'' @ LF # ''x'' @ LF # ''```'')) =
     [ [(''kernelspec'', [(''name'', ''bash'')])] ]"
  by (simp add: eval_defs new_code_cell_def)

text \<open>
  C1, amended: a code region that is closed gives one code cell after the cells of the
  text before it. The cell is plain (empty metadata) when the tag of the opening fence
  is exactly \<open>python\<close>; for any other tag, the empty one included, its metadata is the
  fixed kernel name \<open>bash\<close>, whatever the tag is.
\<close>

theorem code_cell_kernel_metadata:
  assumes "\<not> in_code_block (run init_state pre)" and "fence opener"
    and "\<forall>l\<in>set body. \<not> fence l" and "fence closer"
  shows "split_lines (pre @ opener # body @ [closer]) =
         split_lines pre @
           [new_code_cell (join body)
              (if drop 3 (strip opener) = ''python'' then []
               else [(''kernelspec'', [(''name'', ''bash'')])])]"
proof -
  have "code_block (run init_state pre) = []"
    using assms(1) by (rule code_block_outside)
  then show ?thesis
    using assms run_region [of "run init_state pre" opener body closer]
    by (simp add: split_lines_def run_append finish_def)
qed

text \<open>
  The amended C1 at a region tagged \<open>python\<close> and at a region with the empty tag.
\<close>

theorem code_cell_kernel_metadata_witness:
  "split_lines [''```python'', ''print(1)'', ''```''] = [new_code_cell ''print(1)'' [] ] \<and>
   split_lines [''```'', ''ls'', ''```''] =
     [new_code_cell ''ls'' [(''kernelspec'', [(''name'', ''bash'')])] ]"
  using code_cell_kernel_metadata [of "[]" "''```python''" "[''print(1)'']" "''```''"]
    code_cell_kernel_metadata [of "[]" "''```''" "[''ls'']" "''```''"]
  by (simp add: eval_defs)

text \<open>
  C7, as stated, fails for the cell that is emitted: the tags \<open>js\<close> and \<open>bash\<close> are
  different texts captured at the opening fence, yet the two regions give the same
  cells, so the cell does not hold the captured text.
\<close>

theorem emitted_cell_tag_counterexample:
  "drop 3 (strip ''```js'') = ''js'' \<and> drop 3 (strip ''```bash'') = ''bash'' \<and>
   split_content_to_cells (''```js'' @ LF # ''x'' @ LF # ''```'') =
   split_content_to_cells (''```bash'' @ LF # ''x'' @ LF # ''```'')"
  by (simp add: eval_defs)

text \<open>
  C7, amended: the tag the splitter holds while a code region is scanned, and when its
  cell is emitted, is what follows the three backticks of the trimmed opening line, and
  the closing fence leaves it as it is. The cell emitted at the closing fence records
  that tag only through the choice between plain and \<open>bash\<close> metadata: two opening
  fences whose tags agree on being \<open>python\<close> or not give the same cells for the whole
  input. The text after the backticks of the closing fence changes nothing: with any
  other closing fence line the cells of the whole input are the same.
\<close>

theorem closing_fence_text_ignored:
  assumes "\<not> in_code_block (run init_state pre)" and "fence opener"
    and "\<forall>l\<in>set body. \<not> fence l" and "fence closer" and "fence closer'"
  shows "current_code_type (run init_state (pre @ opener # body)) = drop 3 (strip opener) \<and>
         current_code_type (run init_state (pre @ opener # body @ [closer])) =
           drop 3 (strip opener) \<and>
         cells (run init_state (pre @ opener # body @ [closer])) =
           cells (run init_state (pre @ opener # body)) @
             [new_code_cell (join body)
                (if drop 3 (strip opener) = ''python'' then []
                 else [(''kernelspec'', [(''name'', ''bash'')])])] \<and>
         (fence opener' \<and>
          (drop 3 (strip opener) = ''python'' \<longleftrightarrow> drop 3 (strip opener') = ''python'') \<longrightarrow>
            split_lines (pre @ opener # body @ closer # rest) =
              split_lines (pre @ opener' # body @ closer # rest)) \<and>
         split_lines (pre @ opener # body @ closer # rest) =
           split_lines (pre @ opener # body @ closer' # rest)"
proof -
  let ?s = "run init_state pre"
  have cb: "code_block ?s = []"
    using assms(1) by (rule code_block_outside)
  have opened: "run init_state (pre @ opener # body) = run ?s (opener # body)"
    by (simp add: run_append)
  have closed: "run init_state (pre @ p # body @ [c]) = run ?s (p # body @ [c])" for p c
    by (simp add: run_append)
  have same: "run ?s (opener # body @ [closer]) = run ?s (opener # body @ [closer'])"
    using assms cb by (simp add: run_region)
  have whole: "run init_state (pre @ p # body @ c # rest) =
        run (run ?s (p # body @ [c])) rest" for p c
    using run_append [of init_state "pre @ p # body @ [c]" rest] closed [of p c]
    by simp
  have by_closer: "split_lines (pre @ opener # body @ closer # rest) =
        split_lines (pre @ opener # body @ closer' # rest)"
    using same whole by (simp add: split_lines_def)
  have by_opener: "split_lines (pre @ opener # body @ closer # rest) =
        split_lines (pre @ opener' # body @ closer # rest)"
    if "fence opener'"
      and "drop 3 (strip opener) = ''python'' \<longleftrightarrow> drop 3 (strip opener') = ''python''"
  proof -
    have "same_but_tag (run ?s (opener # body @ [closer])) (run ?s (opener' # body @ [closer]))"
      using assms(1-4) cb that by (simp add: run_region same_but_tag_def)
    then have "same_but_tag (run (run ?s (opener # body @ [closer])) rest)
        (run (run ?s (opener' # body @ [closer])) rest)"
      by (rule same_but_tag_run)
    then show ?thesis
      using whole by (simp add: split_lines_def same_but_tag_finish)
  qed
  have held: "current_code_type (run init_state (pre @ opener # body)) =
        drop 3 (strip opener)"
    using assms opened by (simp add: run_open)
  have kept: "current_code_type (run init_state (pre @ opener # body @ [closer])) =
        drop 3 (strip opener)"
    using assms cb closed [of opener closer] by (simp add: run_region)
  have emitted: "cells (run init_state (pre @ opener # body @ [closer])) =
        cells (run init_state (pre @ opener # body)) @
          [new_code_cell (join body)
             (if drop 3 (strip opener) = ''python'' then []
              else [(''kernelspec'', [(''name'', ''bash'')])])]"
    using assms cb closed [of opener closer] opened by (simp add: run_region run_open)
  from held kept emitted by_opener by_closer show ?thesis by blast
qed

text \<open>
  The amended C7 at an input whose first region is tagged \<open>bash\<close>, against the tag
  \<open>sh\<close>, and whose first closing fence carries the text \<open>python\<close>.
\<close>

theorem closing_fence_text_ignored_witness:
  "split_lines [''intro'', ''```bash'', ''ls'', ''```python'', ''```'', ''x = 1'', ''```''] =
   split_lines [''intro'', ''```bash'', ''ls'', ''```'', ''```'', ''x = 1'', ''```''] \<and>
   split_lines [''intro'', ''```bash'', ''ls'', ''```python'', ''```'', ''x = 1'', ''```''] =
   split_lines [''intro'', ''```sh'', ''ls'', ''```python'', ''```'', ''x = 1'', ''```''] \<and>
   current_code_type (run init_state [''intro'', ''```bash'', ''ls'', ''```python'']) = ''bash''"
  using closing_fence_text_ignored [of "[''intro'']" "''```bash''" "[''ls'']" "''```python''"
      "''```''" "''```sh''" "[''```'', ''x = 1'', ''```'']"]
  by (simp add: eval_defs)

section \<open>Empty accumulators\<close>

text \<open>
  C2, as stated, fails: an opening fence followed at once by a closing fence gives a
  code cell with an empty source.
\<close>

theorem empty_region_counterexample:
  "split_content_to_cells (''```'' @ LF # ''```'') =
     [new_code_cell [] [(''kernelspec'', [(''name'', ''bash'')])] ]"
  by (simp add: eval_defs)

text \<open>
  C2, amended: an opening fence followed at once by a closing fence gives a code cell
  with an empty source; an empty markdown accumulator is never flushed, neither at an
  opening fence nor at the end of the input.
\<close>

theorem empty_accumulators:
  assumes "fence opener" and "fence closer"
  shows "(\<not> in_code_block (run init_state pre) \<longrightarrow>
            split_lines (pre @ [opener, closer]) =
              split_lines pre @
                [new_code_cell []
                   (if drop 3 (strip opener) = ''python'' then []
                    else [(''kernelspec'', [(''name'', ''bash'')])])]) \<and>
         (\<not> in_code_block (run init_state pre) \<and> markdown_block (run init_state pre) = [] \<longrightarrow>
            cells (run init_state (pre @ [opener])) = cells (run init_state pre)) \<and>
         (markdown_block (run init_state pre) = [] \<longrightarrow>
            split_lines pre = cells (run init_state pre))"
proof (intro conjI impI)
  assume "\<not> in_code_block (run init_state pre)"
  then show "split_lines (pre @ [opener, closer]) =
      split_lines pre @
        [new_code_cell []
           (if drop 3 (strip opener) = ''python'' then []
            else [(''kernelspec'', [(''name'', ''bash'')])])]"
    using assms run_region [of "run init_state pre" opener "[]" closer]
    by (simp add: split_lines_def run_append finish_def code_block_outside)
next
  assume "\<not> in_code_block (run init_state pre) \<and> markdown_block (run init_state pre) = []"
  then show "cells (run init_state (pre @ [opener])) = cells (run init_state pre)"
    using assms by (simp add: run_append run_Cons run_Nil step_fence_markdown finish_def)
next
  assume "markdown_block (run init_state pre) = []"
  then show "split_lines pre = cells (run init_state pre)"
    by (simp add: split_lines_def finish_def)
qed

text \<open>
  The amended C2 at the start of the input.
\<close>

theorem empty_accumulators_witness:
  "split_lines [''```'', ''```''] = [new_code_cell [] [(''kernelspec'', [(''name'', ''bash'')])] ] \<and>
   cells (run init_state [''```'']) = [] \<and> split_lines [] = []"
  using empty_accumulators [of "''```''" "''```''" "[]"]
  by (simp add: eval_defs)

section \<open>Text without fences\<close>

lemma splitlines_cases:
  assumes "s \<noteq> []"
  shows "((\<forall>c\<in>set s. \<not> is_linebreak c) \<and> splitlines s = [s]) \<or>
         (\<exists>line b rest. s = line @ b @ rest \<and> (\<forall>c\<in>set line. \<not> is_linebreak c) \<and>
            (b = [CR, LF] \<or> (\<exists>x. b = [x] \<and> is_linebreak x)) \<and>
            splitlines s = line # splitlines rest)"
proof -
  let ?P = "\<lambda>x. \<not> is_linebreak x"
  let ?line = "takeWhile ?P s"
  from assms obtain c cs where s: "s = c # cs" by (cases s) auto
  have line: "\<forall>c\<in>set ?line. \<not> is_linebreak c"
    by (auto dest: set_takeWhileD)
  show ?thesis
  proof (cases "dropWhile ?P s")
    case Nil
    then have "?line = s" by (metis append_Nil2 takeWhile_dropWhile_id)
    moreover have "splitlines s = [?line]"
      using Nil unfolding s by simp
    ultimately show ?thesis using line by simp
  next
    case (Cons b r)
    have split: "s = ?line @ b # r"
      using Cons by (metis takeWhile_dropWhile_id)
    have b: "is_linebreak b"
      using Cons hd_dropWhile [of ?P s] by force
    show ?thesis
    proof (cases "b = CR \<and> r \<noteq> [] \<and> hd r = LF")
      case True
      then obtain r' where r: "r = LF # r'" by (cases r) auto
      have "splitlines s = ?line # splitlines r'"
        using Cons True r unfolding s by simp
      moreover have "s = ?line @ [CR, LF] @ r'"
        using split True r by simp
      ultimately show ?thesis using line by blast
    next
      case False
      have "splitlines s = ?line # splitlines r"
        using Cons False unfolding s by (cases r) auto
      moreover have "s = ?line @ [b] @ r"
        using split by simp
      ultimately show ?thesis using line b by blast
    qed
  qed
qed

lemma splitlines_nonempty: "s \<noteq> [] \<Longrightarrow> splitlines s \<noteq> []"
  by (cases s) simp_all

lemma splitlines_sublist: "l \<in> set (splitlines s) \<Longrightarrow> sublist l s"
proof (induction s arbitrary: l rule: length_induct)
  case (1 s)
  show ?case
  proof (cases "s = []")
    case True
    with 1 show ?thesis by simp
  next
    case False
    from splitlines_cases [OF False] consider "splitlines s = [s]"
      | line b rest where "s = line @ b @ rest" "b = [CR, LF] \<or> (\<exists>x. b = [x] \<and> is_linebreak x)"
          "splitlines s = line # splitlines rest"
      by blast
    then show ?thesis
    proof cases
      case 1
      with "1.prems" show ?thesis by simp
    next
      case (2 line b rest)
      from 2(2) have "b \<noteq> []" by auto
      then have shorter: "length rest < length s" using 2(1) by simp
      from "1.prems" 2(3) consider "l = line" | "l \<in> set (splitlines rest)" by auto
      then show ?thesis
      proof cases
        case 1
        then show ?thesis using 2(1) by simp
      next
        case 2
        then have "sublist l rest" using "1.IH" shorter by blast
        then obtain ps ss where "rest = ps @ l @ ss" unfolding sublist_def by blast
        then have "s = (line @ b @ ps) @ l @ ss" using \<open>s = line @ b @ rest\<close> by simp
        then show ?thesis unfolding sublist_def by blast
      qed
    qed
  qed
qed

lemma strip_sublist: "sublist (strip l) l"
proof -
  let ?d = "dropWhile isspace l"
  have "rev ?d = takeWhile isspace (rev ?d) @ dropWhile isspace (rev ?d)"
    by simp
  then have "rev (rev ?d) = rev (takeWhile isspace (rev ?d) @ dropWhile isspace (rev ?d))"
    by (rule arg_cong)
  then have "?d = strip l @ rev (takeWhile isspace (rev ?d))"
    unfolding strip_def rev_append rev_rev_ident .
  moreover have "l = takeWhile isspace l @ ?d" by simp
  ultimately have "l = takeWhile isspace l @ strip l @ rev (takeWhile isspace (rev ?d))"
    by simp
  then show ?thesis unfolding sublist_def by blast
qed

lemma fence_sublist:
  assumes "fence l"
  shows "sublist ''```'' l"
proof -
  from assms have "take (length ''```'') (strip l) = ''```''"
    unfolding startswith_def .
  then have "strip l = ''```'' @ drop (length ''```'') (strip l)"
    by (metis append_take_drop_id)
  moreover obtain ps' ss' where "l = ps' @ strip l @ ss'"
    using strip_sublist [of l] unfolding sublist_def by blast
  ultimately have "l = ps' @ ''```'' @ (drop (length ''```'') (strip l) @ ss')"
    by (metis append_assoc)
  then show ?thesis unfolding sublist_def by blast
qed

lemma no_backticks_no_fence:
  assumes "\<not> sublist ''```'' s"
  shows "\<forall>l\<in>set (splitlines s). \<not> fence l"
proof
  fix l assume l: "l \<in> set (splitlines s)"
  show "\<not> fence l"
  proof
    assume "fence l"
    then have "sublist ''```'' l" by (rule fence_sublist)
    then obtain ps ss where "l = ps @ ''```'' @ ss"
      unfolding sublist_def by blast
    moreover obtain ps' ss' where "s = ps' @ l @ ss'"
      using splitlines_sublist [OF l] unfolding sublist_def by blast
    ultimately have "s = (ps' @ ps) @ ''```'' @ (ss @ ss')" by simp
    then have "sublist ''```'' s" unfolding sublist_def by blast
    with assms show False by simp
  qed
qed

lemma join_Cons: "ls \<noteq> [] \<Longrightarrow> join (l # ls) = l @ LF # join ls"
  by (cases ls) simp_all

lemma join_splitlines:
  assumes "s \<noteq> []" and "\<forall>c\<in>set s. is_linebreak c \<longrightarrow> c = LF"
  shows "join (splitlines s) = (if last s = LF then butlast s else s)"
  using assms
proof (induction s rule: length_induct)
  case (1 s)
  from splitlines_cases [OF \<open>s \<noteq> []\<close>]
  consider "\<forall>c\<in>set s. \<not> is_linebreak c" "splitlines s = [s]"
    | line b rest where "s = line @ b @ rest"
        "b = [CR, LF] \<or> (\<exists>x. b = [x] \<and> is_linebreak x)"
        "splitlines s = line # splitlines rest"
    by blast
  then show ?case
  proof cases
    case 1
    have "last s \<in> set s" using \<open>s \<noteq> []\<close> by simp
    then have "\<not> is_linebreak (last s)" using 1(1) by blast
    moreover have "is_linebreak LF" by (simp add: is_linebreak_def)
    ultimately have "last s \<noteq> LF" by metis
    then show ?thesis using 1(2) by simp
  next
    case (2 line b rest)
    note s = 2(1) and b = 2(2) and sl = 2(3)
    have "is_linebreak CR" by (simp add: is_linebreak_def)
    then have "b \<noteq> [CR, LF]" using "1.prems"(2) s by auto
    with b obtain x where "b = [x]" "is_linebreak x" by auto
    then have bLF: "b = [LF]" using "1.prems"(2) s by auto
    show ?thesis
    proof (cases "rest = []")
      case True
      then show ?thesis using s sl bLF by simp
    next
      case False
      have "length rest < length s" using s bLF by simp
      moreover have "\<forall>c\<in>set rest. is_linebreak c \<longrightarrow> c = LF" using "1.prems"(2) s by simp
      ultimately have IH: "join (splitlines rest) = (if last rest = LF then butlast rest else rest)"
        using "1.IH" False by blast
      have "join (splitlines s) = line @ LF # join (splitlines rest)"
        using sl False by (simp add: join_Cons splitlines_nonempty)
      moreover have "last s = last rest" "butlast s = line @ LF # butlast rest"
        using s bLF False by (simp_all add: butlast_append)
      ultimately show ?thesis using IH s bLF by simp
    qed
  qed
qed

text \<open>
  C3, as stated, fails: the empty text has no triple backtick and gives no cell at all;
  and a text whose lines are separated by a carriage return gives a cell whose source
  differs from the text inside, not only at a trailing newline.
\<close>

theorem plain_text_counterexample:
  "\<not> sublist ''```'' [] \<and> split_content_to_cells [] = [] \<and>
   \<not> sublist ''```'' (''a'' @ CR # ''b'') \<and>
   split_content_to_cells (''a'' @ CR # ''b'') = [new_markdown_cell (''a'' @ LF # ''b'')]"
  by (simp add: eval_defs sublist_code)

text \<open>
  C3, amended: a non-empty text with no triple backtick gives exactly one markdown cell
  (so no code cell), whose source is the lines of the text joined by newlines; when the
  newline is the only line boundary in the text, that source is the text without its
  last newline, if it ends with one.
\<close>

theorem plain_text_single_markdown_cell:
  assumes "md_content \<noteq> []" and "\<not> sublist ''```'' md_content"
  shows "split_content_to_cells md_content = [new_markdown_cell (join (splitlines md_content))] \<and>
         ((\<forall>c\<in>set md_content. is_linebreak c \<longrightarrow> c = LF) \<longrightarrow>
            join (splitlines md_content) =
              (if last md_content = LF then butlast md_content else md_content))"
proof -
  have "\<forall>l\<in>set (splitlines md_content). \<not> fence l"
    using assms(2) by (rule no_backticks_no_fence)
  then have "run init_state (splitlines md_content) =
      init_state\<lparr>markdown_block := markdown_block init_state @ splitlines md_content\<rparr>"
    by (intro run_text_markdown) (simp_all add: init_state_def)
  then have "split_content_to_cells md_content =
      [new_markdown_cell (join (splitlines md_content))]"
    using splitlines_nonempty [OF assms(1)]
    by (simp add: split_content_to_cells_def split_lines_def finish_def init_state_def)
  then show ?thesis
    using join_splitlines [OF assms(1)] by blast
qed

text \<open>
  The amended C3 at a two-line text ending with a newline.
\<close>

theorem plain_text_single_markdown_cell_witness:
  "split_content_to_cells (''# Title'' @ LF # ''Some text.'' @ [LF]) =
     [new_markdown_cell (''# Title'' @ LF # ''Some text.'')]"
  using plain_text_single_markdown_cell [of "''# Title'' @ LF # ''Some text.'' @ [LF]"]
  by (simp add: is_linebreak_def sublist_code)

section \<open>Unterminated code\<close>

text \<open>
  C5: when the last fence of the input opens a code region that is never closed, the
  cells are those of the text before that fence: the pending code lines give no cell,
  and the function returns normally. When the text before it has no fence and is not
  empty, the result is the single markdown cell of that text.
\<close>

theorem unterminated_code_dropped:
  assumes "\<not> in_code_block (run init_state pre)" and "fence opener"
    and "\<forall>l\<in>set body. \<not> fence l"
  shows "split_lines (pre @ opener # body) = split_lines pre \<and>
         (pre \<noteq> [] \<and> (\<forall>l\<in>set pre. \<not> fence l) \<longrightarrow>
            split_lines (pre @ opener # body) = [new_markdown_cell (join pre)])"
proof -
  have dropped: "split_lines (pre @ opener # body) = split_lines pre"
    using assms by (simp add: split_lines_def run_append run_open finish_def)
  have "split_lines pre = [new_markdown_cell (join pre)]"
    if "pre \<noteq> []" and "\<forall>l\<in>set pre. \<not> fence l"
    using that by (simp add: split_lines_def run_text_markdown init_state_def finish_def)
  with dropped show ?thesis by simp
qed

text \<open>
  C5 at a text with one line of prose, an opening fence and two lines of code.
\<close>

theorem unterminated_code_dropped_witness:
  "split_lines [''intro'', ''```python'', ''x = 1'', ''y = 2''] = [new_markdown_cell ''intro'']"
  using unterminated_code_dropped [of "[''intro'']" "''```python''" "[''x = 1'', ''y = 2'']"]
  by (simp add: eval_defs)

section \<open>Alternation of the cells\<close>

lemma no_adjacent_markdown_snoc:
  "no_adjacent_markdown (cs @ [c]) \<longleftrightarrow>
   no_adjacent_markdown cs \<and> (cs = [] \<or> cell_type (last cs) = Code \<or> cell_type c = Code)"
  by (induction cs rule: no_adjacent_markdown.induct) auto

lemma alternation_ok_init: "alternation_ok init_state"
  by (simp add: alternation_ok_def init_state_def ends_with_code_def)

lemma alternation_ok_step:
  assumes "alternation_ok s"
  shows "alternation_ok (step s l)"
proof (cases "fence l")
  case False
  then show ?thesis
    using assms by (cases "in_code_block s")
      (simp_all add: step_text_in_code step_text_markdown alternation_ok_def)
next
  case True
  show ?thesis
  proof (cases "in_code_block s")
    case True
    with \<open>fence l\<close> assms show ?thesis
      by (simp add: step_fence_in_code alternation_ok_def no_adjacent_markdown_snoc
          ends_with_code_def new_code_cell_def)
  next
    case False
    with \<open>fence l\<close> assms show ?thesis
      by (auto simp add: step_fence_markdown alternation_ok_def no_adjacent_markdown_snoc
          ends_with_code_def finish_def new_markdown_cell_def)
  qed
qed

lemma alternation_ok_run: "alternation_ok s \<Longrightarrow> alternation_ok (run s ls)"
  by (induction ls arbitrary: s) (simp_all add: run_Nil run_Cons alternation_ok_step)

lemma alternation_ok_finish: "alternation_ok s \<Longrightarrow> no_adjacent_markdown (finish s)"
  by (cases "in_code_block s")
    (auto simp add: alternation_ok_def finish_def no_adjacent_markdown_snoc ends_with_code_def)

text \<open>
  C10: in the cells the splitter returns, no two markdown cells are adjacent.
\<close>

theorem no_two_markdown_cells_adjacent:
  "no_adjacent_markdown (split_content_to_cells md_content)"
  unfolding split_content_to_cells_def split_lines_def
  by (intro alternation_ok_finish alternation_ok_run alternation_ok_init)

text \<open>
  C10 at a text with two code regions and prose around them.
\<close>

theorem no_two_markdown_cells_adjacent_witness:
  "no_adjacent_markdown
     (split_content_to_cells (''a'' @ LF # ''```'' @ LF # ''x'' @ LF # ''```'' @ LF # ''b''))"
  using no_two_markdown_cells_adjacent
    [of "''a'' @ LF # ''```'' @ LF # ''x'' @ LF # ''```'' @ LF # ''b''"]
  by simp

section \<open>The title cell\<close>

text \<open>What the conversion does with the first cell, and the title of the first file.\<close>

lemma title_decision:
  assumes "split_content_to_cells md_content = first # others"
  shows "convert_md_file md_file md_content =
         Inr \<lparr>nb_cells =
           (if startswith (source first) ''# '' then first # others
            else new_markdown_cell
                   (''# '' @ title (replace_underscores (splitext_root md_file))) #
                 first # others)\<rparr>"
  using assms by (simp add: convert_md_file_def Let_def)

lemma title_example:
  "title (replace_underscores (splitext_root ''1_1_what_is_pydantic.md'')) = ''1 1 What Is Pydantic''"
  by (simp add: title_def replace_underscores_def splitext_root_def rfind_def upt_rec
     upper_def lower_def ascii_lowercase_def ascii_uppercase_def Let_def)

text \<open>
  C6: a file that starts with a code region whose first line is a Python comment. The
  first cell is a code cell, yet no title cell is put before it: the test looks at the
  source of the first cell only, not at its type.
\<close>

theorem code_comment_taken_for_heading:
  "convert_md_file ''1_1_what_is_pydantic.md''
     (''```python'' @ LF # ''# setup'' @ LF # ''import pydantic'' @ LF # ''```'') =
   Inr \<lparr>nb_cells = [\<lparr>cell_type = Code, source = ''# setup'' @ LF # ''import pydantic'', metadata = []\<rparr>]\<rparr>"
  by (simp add: convert_md_file_def eval_defs new_code_cell_def)

text \<open>
  C9: when the splitter returns no cell, the conversion of the file ends with the
  IndexError of \<open>nb.cells[0]\<close> and no notebook is produced.
\<close>

theorem empty_cells_index_error:
  "split_content_to_cells md_content = [] \<Longrightarrow> convert_md_file md_file md_content = Inl IndexError"
  by (simp add: convert_md_file_def)

text \<open>
  C9 at the empty text and at a text made of an unterminated code region.
\<close>

theorem empty_cells_index_error_witness:
  "convert_md_file ''1_1_what_is_pydantic.md'' [] = Inl IndexError \<and>
   convert_md_file ''1_1_what_is_pydantic.md'' (''```python'' @ LF # ''x = 1'') = Inl IndexError"
  using empty_cells_index_error [of "[]" "''1_1_what_is_pydantic.md''"]
    empty_cells_index_error [of "''```python'' @ LF # ''x = 1''" "''1_1_what_is_pydantic.md''"]
  by (simp add: eval_defs)

section \<open>Reconstruction\<close>

lemma split_newline_line: "LF \<notin> set l \<Longrightarrow> split_newline l = [l]"
  by (induction l) auto

lemma split_newline_append: "LF \<notin> set l \<Longrightarrow> split_newline (l @ LF # r) = l # split_newline r"
  by (induction l) auto

lemma split_newline_join:
  "xs \<noteq> [] \<Longrightarrow> \<forall>l\<in>set xs. LF \<notin> set l \<Longrightarrow> split_newline (join xs) = xs"
proof (induction xs rule: join.induct)
  case 1
  then show ?case by simp
next
  case (2 x)
  then show ?case by (simp add: split_newline_line)
next
  case (3 x y ys)
  then show ?case by (simp add: split_newline_append)
qed

lemma splitlines_no_linebreak:
  "l \<in> set (splitlines s) \<Longrightarrow> \<forall>c\<in>set l. \<not> is_linebreak c"
proof (induction s arbitrary: l rule: length_induct)
  case (1 s)
  show ?case
  proof (cases "s = []")
    case True
    with 1 show ?thesis by simp
  next
    case False
    from splitlines_cases [OF False]
    consider "\<forall>c\<in>set s. \<not> is_linebreak c" "splitlines s = [s]"
      | line b rest where "s = line @ b @ rest" "\<forall>c\<in>set line. \<not> is_linebreak c"
          "b = [CR, LF] \<or> (\<exists>x. b = [x] \<and> is_linebreak x)"
          "splitlines s = line # splitlines rest"
      by blast
    then show ?thesis
    proof cases
      case 1
      with "1.prems" show ?thesis by simp
    next
      case (2 line b rest)
      from 2(3) have "b \<noteq> []" by auto
      then have shorter: "length rest < length s" using 2(1) by simp
      from "1.prems" 2(4) consider "l = line" | "l \<in> set (splitlines rest)" by auto
      then show ?thesis
      proof cases
        case 1
        then show ?thesis using 2(2) by simp
      next
        case 2
        then show ?thesis using "1.IH" shorter by blast
      qed
    qed
  qed
qed

lemma splitlines_no_LF: "l \<in> set (splitlines s) \<Longrightarrow> LF \<notin> set l"
  using splitlines_no_linebreak [of l s] by (auto simp: is_linebreak_def)

lemma lines_ok_init: "lines_ok init_state"
  by (simp add: lines_ok_def accumulators_ok_init) (simp add: init_state_def)

lemma lines_ok_step: "lines_ok s \<Longrightarrow> LF \<notin> set l \<Longrightarrow> lines_ok (step s l)"
  unfolding lines_ok_def
  by (intro conjI accumulators_ok_step) (auto simp add: step_def Let_def)

lemma stored_lines_step:
  assumes "lines_ok s" and "fence l \<and> in_code_block s \<longrightarrow> code_block s \<noteq> []"
  shows "stored_lines (step s l) = stored_lines s @ (if fence l then [] else [l])"
proof (cases "fence l")
  case False
  then show ?thesis
    using assms(1)
    by (cases "in_code_block s")
      (simp_all add: step_text_in_code step_text_markdown stored_lines_def lines_ok_def
        accumulators_ok_def)
next
  case True
  show ?thesis
  proof (cases "in_code_block s")
    case True
    with \<open>fence l\<close> assms show ?thesis
      by (simp add: step_fence_in_code stored_lines_def lines_ok_def accumulators_ok_def
          cell_lines_def new_code_cell_def split_newline_join)
  next
    case False
    with \<open>fence l\<close> assms show ?thesis
      by (simp add: step_fence_markdown stored_lines_def lines_ok_def accumulators_ok_def
          finish_def cell_lines_def new_markdown_cell_def split_newline_join)
  qed
qed

lemma stored_lines_run:
  assumes "lines_ok s" and "\<forall>l\<in>set ls. LF \<notin> set l"
    and "code_regions_nonempty (in_code_block s) (in_code_block s \<and> code_block s = []) ls"
  shows "stored_lines (run s ls) = stored_lines s @ filter (\<lambda>l. \<not> fence l) ls \<and>
         lines_ok (run s ls)"
  using assms
proof (induction ls arbitrary: s)
  case Nil
  then show ?case by (simp add: run_Nil)
next
  case (Cons l ls)
  have ok: "lines_ok (step s l)"
    using Cons.prems by (simp add: lines_ok_step)
  have nonempty: "fence l \<and> in_code_block s \<longrightarrow> code_block s \<noteq> []"
    using Cons.prems(3) by auto
  have st: "stored_lines (step s l) = stored_lines s @ (if fence l then [] else [l])"
    using Cons.prems(1) nonempty by (rule stored_lines_step)
  have acc: "accumulators_ok s"
    using Cons.prems(1) by (simp add: lines_ok_def)
  have next_regions: "code_regions_nonempty (in_code_block (step s l))
      (in_code_block (step s l) \<and> code_block (step s l) = []) ls"
  proof (cases "fence l")
    case True
    then show ?thesis
      using Cons.prems(3) acc
      by (cases "in_code_block s")
        (simp_all add: step_fence_in_code step_fence_markdown accumulators_ok_def)
  next
    case False
    then show ?thesis
      using Cons.prems(3)
      by (cases "in_code_block s") (simp_all add: step_text_in_code step_text_markdown)
  qed
  have "stored_lines (run (step s l) ls) =
        stored_lines (step s l) @ filter (\<lambda>l. \<not> fence l) ls \<and> lines_ok (run (step s l) ls)"
    using Cons.IH [OF ok _ next_regions] Cons.prems(2) by simp
  then show ?case using st by (simp add: run_Cons)
qed

lemma stored_lines_finish:
  assumes "lines_ok s" and "\<not> in_code_block s"
  shows "concat (map cell_lines (finish s)) = stored_lines s"
  using assms
  by (simp add: finish_def stored_lines_def lines_ok_def accumulators_ok_def cell_lines_def
      new_markdown_cell_def split_newline_join)

lemma content_preserved:
  assumes "\<forall>l\<in>set ls. LF \<notin> set l" and "\<not> in_code_block (run init_state ls)"
    and "code_regions_nonempty False False ls"
  shows "concat (map cell_lines (split_lines ls)) = filter (\<lambda>l. \<not> fence l) ls"
proof -
  have "code_regions_nonempty (in_code_block init_state)
      (in_code_block init_state \<and> code_block init_state = []) ls"
    using assms(3) by (simp add: init_state_def)
  then have "stored_lines (run init_state ls) =
      stored_lines init_state @ filter (\<lambda>l. \<not> fence l) ls \<and> lines_ok (run init_state ls)"
    using lines_ok_init assms(1) by (intro stored_lines_run)
  moreover have "stored_lines init_state = []"
    by (simp add: stored_lines_def init_state_def)
  ultimately show ?thesis
    using assms(2) by (simp add: split_lines_def stored_lines_finish)
qed

lemma rebuild_snoc:
  "rebuild (cs @ [c]) =
     (if cs = [] then cell_lines c
      else rebuild cs @ (if cell_type (last cs) \<noteq> cell_type c then [''```''] else []) @
             cell_lines c)"
  by (induction cs rule: rebuild.induct) simp_all

lemma no_adjacent_fences_snoc:
  "no_adjacent_fences (xs @ [x]) \<longleftrightarrow>
   no_adjacent_fences xs \<and> (xs = [] \<or> \<not> (fence (last xs) \<and> fence x))"
  by (induction xs rule: no_adjacent_fences.induct) auto

lemma generic_fences_snoc:
  "generic_fences (xs @ [l]) = generic_fences xs @ [if fence l then ''```'' else l]"
  by (simp add: generic_fences_def)

lemma rebuild_inv_init: "rebuild_inv [] init_state"
  by (simp add: rebuild_inv_def init_state_def ends_with_code_def generic_fences_def)

lemma rebuild_inv_text:
  assumes "rebuild_inv xs s" and "LF \<notin> set l" and "\<not> fence l"
  shows "rebuild_inv (xs @ [l]) (step s l)"
proof (cases "in_code_block s")
  case True
  then have "step s l = s\<lparr>code_block := code_block s @ [l]\<rparr>"
    using assms(3) by (simp add: step_text_in_code)
  then show ?thesis
    using assms True by (simp add: rebuild_inv_def generic_fences_snoc)
next
  case False
  then have "step s l = s\<lparr>markdown_block := markdown_block s @ [l]\<rparr>"
    using assms(3) by (simp add: step_text_markdown)
  then show ?thesis
    using assms False by (simp add: rebuild_inv_def generic_fences_snoc)
qed

lemma rebuild_inv_close:
  assumes "rebuild_inv xs s" and "fence l" and "\<not> fence (last xs)" and "in_code_block s"
  shows "rebuild_inv (xs @ [l]) (step s l)"
proof -
  have cb: "code_block s \<noteq> []" "\<forall>l\<in>set (code_block s). LF \<notin> set l"
    and cs: "cells s \<noteq> []" "cell_type (last (cells s)) = Markdown"
    and eq: "rebuild (cells s) @ ''```'' # code_block s = generic_fences xs"
    using assms by (simp_all add: rebuild_inv_def)
  let ?c = "new_code_cell (join (code_block s))
              (if current_code_type s = ''python'' then []
               else [(''kernelspec'', [(''name'', ''bash'')])])"
  have "cell_lines ?c = code_block s"
    using cb by (simp add: cell_lines_def new_code_cell_def split_newline_join)
  moreover have "cell_type ?c = Code"
    by (simp add: new_code_cell_def)
  ultimately have "rebuild (cells s @ [?c]) = rebuild (cells s) @ ''```'' # code_block s"
    using cs by (simp add: rebuild_snoc)
  then have "rebuild (cells s @ [?c]) @ [''```''] = generic_fences (xs @ [l])"
    using eq assms(2) by (simp add: generic_fences_snoc)
  moreover have "step s l = s\<lparr>cells := cells s @ [?c], in_code_block := False, code_block := []\<rparr>"
    using assms by (simp add: step_fence_in_code)
  ultimately show ?thesis
    using assms(1,2,4) \<open>cell_type ?c = Code\<close>
    by (simp add: rebuild_inv_def ends_with_code_def)
qed

lemma rebuild_inv_open:
  assumes "rebuild_inv xs s" and "fence l" and "xs \<noteq> []" and "\<not> fence (last xs)"
    and "\<not> in_code_block s"
  shows "rebuild_inv (xs @ [l]) (step s l)"
proof -
  have mb: "markdown_block s \<noteq> []" "\<forall>l\<in>set (markdown_block s). LF \<notin> set l"
    and cs: "ends_with_code (cells s)" and cb: "code_block s = []"
    and eq: "rebuild (cells s) @ (if cells s = [] then [] else [''```'']) @ markdown_block s =
             generic_fences xs"
    using assms by (simp_all add: rebuild_inv_def)
  let ?c = "new_markdown_cell (join (markdown_block s))"
  have "cell_lines ?c = markdown_block s"
    using mb by (simp add: cell_lines_def new_markdown_cell_def split_newline_join)
  moreover have ty: "cell_type ?c = Markdown"
    by (simp add: new_markdown_cell_def)
  ultimately have "rebuild (cells s @ [?c]) =
      rebuild (cells s) @ (if cells s = [] then [] else [''```'']) @ markdown_block s"
    using cs by (auto simp add: rebuild_snoc ends_with_code_def)
  then have "rebuild (cells s @ [?c]) @ [''```''] = generic_fences (xs @ [l])"
    using eq assms(2) by (simp add: generic_fences_snoc)
  moreover have "step s l = s\<lparr>cells := cells s @ [?c], in_code_block := True,
      markdown_block := [], current_code_type := drop 3 (strip l)\<rparr>"
    using assms mb by (simp add: step_fence_markdown finish_def)
  ultimately show ?thesis
    using assms(2) cb ty by (simp add: rebuild_inv_def)
qed

lemma rebuild_inv_run:
  assumes "ls \<noteq> [] \<longrightarrow> \<not> fence (hd ls)" and "no_adjacent_fences ls"
    and "\<forall>l\<in>set ls. LF \<notin> set l"
  shows "rebuild_inv ls (run init_state ls)"
  using assms
proof (induction ls rule: rev_induct)
  case Nil
  show ?case by (simp add: run_Nil rebuild_inv_init)
next
  case (snoc x xs)
  have hd_xs: "xs \<noteq> [] \<longrightarrow> \<not> fence (hd xs)"
    using snoc.prems(1) by auto
  have adj: "no_adjacent_fences xs" "xs = [] \<or> \<not> (fence (last xs) \<and> fence x)"
    using snoc.prems(2) by (simp_all add: no_adjacent_fences_snoc)
  have inv: "rebuild_inv xs (run init_state xs)"
    using snoc.IH hd_xs adj(1) snoc.prems(3) by simp
  have x: "LF \<notin> set x" using snoc.prems(3) by simp
  have run: "run init_state (xs @ [x]) = step (run init_state xs) x"
    by (simp add: run_append run_Cons run_Nil)
  show ?case
  proof (cases "fence x")
    case False
    then show ?thesis using inv x run by (simp add: rebuild_inv_text)
  next
    case True
    have "xs \<noteq> []" using snoc.prems(1) True by (cases xs) auto
    then have "\<not> fence (last xs)" using adj(2) True by simp
    then show ?thesis
      using inv True \<open>xs \<noteq> []\<close> run
      by (cases "in_code_block (run init_state xs)")
        (simp_all add: rebuild_inv_close rebuild_inv_open)
  qed
qed

lemma rebuild_split_lines:
  assumes "ls \<noteq> [] \<longrightarrow> \<not> fence (hd ls) \<and> \<not> fence (last ls)" and "no_adjacent_fences ls"
    and "\<forall>l\<in>set ls. LF \<notin> set l" and "\<not> in_code_block (run init_state ls)"
  shows "rebuild (split_lines ls) = generic_fences ls"
proof (cases "ls = []")
  case True
  then show ?thesis
    by (simp add: split_lines_def run_Nil finish_def init_state_def generic_fences_def)
next
  case False
  let ?s = "run init_state ls"
  have inv: "rebuild_inv ls ?s"
    using assms by (intro rebuild_inv_run) simp_all
  then have mb: "markdown_block ?s \<noteq> []" "\<forall>l\<in>set (markdown_block ?s). LF \<notin> set l"
    and cs: "ends_with_code (cells ?s)"
    and eq: "rebuild (cells ?s) @ (if cells ?s = [] then [] else [''```'']) @ markdown_block ?s =
             generic_fences ls"
    using assms(1,4) False by (simp_all add: rebuild_inv_def)
  let ?c = "new_markdown_cell (join (markdown_block ?s))"
  have "cell_lines ?c = markdown_block ?s"
    using mb by (simp add: cell_lines_def new_markdown_cell_def split_newline_join)
  moreover have "cell_type ?c = Markdown"
    by (simp add: new_markdown_cell_def)
  ultimately have "rebuild (cells ?s @ [?c]) =
      rebuild (cells ?s) @ (if cells ?s = [] then [] else [''```'']) @ markdown_block ?s"
    using cs by (auto simp add: rebuild_snoc ends_with_code_def)
  then show ?thesis
    using eq mb(1) by (simp add: split_lines_def finish_def)
qed

text \<open>
  C8, as stated, fails: the fences of this text are paired, but its empty code region
  comes back as a cell with one empty line, so the lines of the cells are not the lines
  of the text, with or without the fences put back.
\<close>

theorem reconstruction_counterexample:
  "\<not> in_code_block
       (run init_state (splitlines (''a'' @ LF # ''```'' @ LF # ''```'' @ LF # ''b''))) \<and>
   concat (map cell_lines
     (split_content_to_cells (''a'' @ LF # ''```'' @ LF # ''```'' @ LF # ''b''))) =
     [''a'', [], ''b''] \<and>
   filter (\<lambda>l. \<not> fence l) (splitlines (''a'' @ LF # ''```'' @ LF # ''```'' @ LF # ''b'')) =
     [''a'', ''b''] \<and>
   rebuild (split_content_to_cells (''a'' @ LF # ''```'' @ LF # ''```'' @ LF # ''b'')) =
     [''a'', ''```'', [], ''```'', ''b''] \<and>
   generic_fences (splitlines (''a'' @ LF # ''```'' @ LF # ''```'' @ LF # ''b'')) =
     [''a'', ''```'', ''```'', ''b'']"
  by (simp add: eval_defs cell_lines_def new_code_cell_def new_markdown_cell_def
      generic_fences_def)

text \<open>
  C8, amended: for a text whose fences are paired and none of whose code regions is
  empty, the lines of the cells, in order, are exactly the lines of the text that are
  not fence lines, untrimmed. If moreover the text neither starts nor ends with a
  fence line and no two fence lines are adjacent, the lines of the cells with a generic
  fence put back wherever a markdown cell meets a code cell are the lines of the text
  with each fence line replaced by the generic fence.
\<close>

theorem reconstruction_of_paired_text:
  assumes "\<not> in_code_block (run init_state (splitlines md_content))"
    and "code_regions_nonempty False False (splitlines md_content)"
  shows "concat (map cell_lines (split_content_to_cells md_content)) =
           filter (\<lambda>l. \<not> fence l) (splitlines md_content) \<and>
         ((splitlines md_content \<noteq> [] \<longrightarrow>
             \<not> fence (hd (splitlines md_content)) \<and> \<not> fence (last (splitlines md_content))) \<and>
          no_adjacent_fences (splitlines md_content) \<longrightarrow>
            rebuild (split_content_to_cells md_content) =
              generic_fences (splitlines md_content))"
proof -
  have no_LF: "\<forall>l\<in>set (splitlines md_content). LF \<notin> set l"
    using splitlines_no_LF by blast
  have "concat (map cell_lines (split_lines (splitlines md_content))) =
        filter (\<lambda>l. \<not> fence l) (splitlines md_content)"
    using no_LF assms by (rule content_preserved)
  moreover have "rebuild (split_lines (splitlines md_content)) =
        generic_fences (splitlines md_content)"
    if "splitlines md_content \<noteq> [] \<longrightarrow>
          \<not> fence (hd (splitlines md_content)) \<and> \<not> fence (last (splitlines md_content))"
      and "no_adjacent_fences (splitlines md_content)"
    using that no_LF assms(1) by (intro rebuild_split_lines)
  ultimately show ?thesis
    by (simp add: split_content_to_cells_def)
qed

text \<open>
  The amended C8 at a text with prose, a tagged code region and prose again.
\<close>

theorem reconstruction_of_paired_text_witness:
  "concat (map cell_lines (split_content_to_cells
     (''before'' @ LF # ''```lang'' @ LF # ''code'' @ LF # ''```'' @ LF # ''after''))) =
     [''before'', ''code'', ''after''] \<and>
   rebuild (split_content_to_cells
     (''before'' @ LF # ''```lang'' @ LF # ''code'' @ LF # ''```'' @ LF # ''after'')) =
     [''before'', ''```'', ''code'', ''```'', ''after'']"
  using reconstruction_of_paired_text
    [of "''before'' @ LF # ''```lang'' @ LF # ''code'' @ LF # ''```'' @ LF # ''after''"]
  by (simp add: eval_defs generic_fences_def)

end
